theory Spec2Isabelle
  imports Complex_Main
begin

section \<open>Python values and built-ins used by \<^verbatim>\<open>amazing_trace.py\<close>\<close>

text \<open>
  A Python \<^verbatim>\<open>str\<close> is modelled as a \<open>string\<close>, one \<open>char\<close> per code point; \<open>char\<close> has
  256 values, so the model covers the texts whose code points are below 256 (ASCII and
  Latin-1). In that range the decimal digits are \<^verbatim>\<open>0\<close>..\<^verbatim>\<open>9\<close> only, which is what
  \<^verbatim>\<open>int\<close>, \<^verbatim>\<open>float\<close> and the pattern \<^verbatim>\<open>\d\<close> accept there.

  Exceptions are values: a computation that may raise returns \<open>exn + 'a\<close>, with \<open>Inl\<close> the
  exception raised.
\<close>

datatype exn = ValueError | IndexError | CalledProcessError | FileNotFoundError

text \<open>\<^verbatim>\<open>str.isspace\<close> on one code point below 256: the characters that \<^verbatim>\<open>str.strip()\<close> and
  \<^verbatim>\<open>str.split()\<close> treat as whitespace.\<close>

definition isspace :: "char \<Rightarrow> bool" where
  "isspace c =
     (let n = (of_char c :: nat)
      in (9 \<le> n \<and> n \<le> 13) \<or> (28 \<le> n \<and> n \<le> 32) \<or> n = 133 \<or> n = 160)"

text \<open>The line boundaries of \<^verbatim>\<open>str.splitlines()\<close> below 256: LF, VT, FF, CR, FS, GS, RS, NEL.\<close>

definition is_linebreak :: "char \<Rightarrow> bool" where
  "is_linebreak c =
     (let n = (of_char c :: nat)
      in (10 \<le> n \<and> n \<le> 13) \<or> (28 \<le> n \<and> n \<le> 30) \<or> n = 133)"

definition isdigit :: "char \<Rightarrow> bool" where
  "isdigit c = (let n = (of_char c :: nat) in 48 \<le> n \<and> n \<le> 57)"

text \<open>\<^verbatim>\<open>s.strip()\<close> and \<^verbatim>\<open>s.strip(chars)\<close>: drop the leading and the trailing characters of
  the given class.\<close>

definition strip_where :: "(char \<Rightarrow> bool) \<Rightarrow> string \<Rightarrow> string" where
  "strip_where p s = rev (dropWhile p (rev (dropWhile p s)))"

definition strip :: "string \<Rightarrow> string" where
  "strip s = strip_where isspace s"

text \<open>\<^verbatim>\<open>token.strip("()")\<close>.\<close>

definition strip_parens :: "string \<Rightarrow> string" where
  "strip_parens s = strip_where (\<lambda>c. c = CHR ''('' \<or> c = CHR '')'') s"

text \<open>\<^verbatim>\<open>s.splitlines()\<close>: the text is cut at every line boundary, CR LF counting as one;
  the boundaries are dropped and a final boundary opens no further line. The first
  argument holds the current line, reversed.\<close>

fun splitlines_from :: "string \<Rightarrow> string \<Rightarrow> string list" where
  "splitlines_from cur [] = (if cur = [] then [] else [rev cur])"
| "splitlines_from cur [c] = (if is_linebreak c then [rev cur] else [rev (c # cur)])"
| "splitlines_from cur (c # d # cs) =
     (if c = CHR 0x0D \<and> d = CHR 0x0A then rev cur # splitlines_from [] cs
      else if is_linebreak c then rev cur # splitlines_from [] (d # cs)
      else splitlines_from (c # cur) (d # cs))"

definition splitlines :: "string \<Rightarrow> string list" where
  "splitlines s = splitlines_from [] s"

text \<open>\<^verbatim>\<open>s.split()\<close>: the maximal runs of non-whitespace characters, in order.\<close>

fun split_from :: "string \<Rightarrow> string \<Rightarrow> string list" where
  "split_from cur [] = (if cur = [] then [] else [rev cur])"
| "split_from cur (c # cs) =
     (if isspace c then (if cur = [] then split_from [] cs else rev cur # split_from [] cs)
      else split_from (c # cur) cs)"

definition split :: "string \<Rightarrow> string list" where
  "split s = split_from [] s"

text \<open>\<^verbatim>\<open>xs[i]\<close> for an index \<open>i \<ge> 0\<close>: IndexError out of range.\<close>

definition getitem :: "'a list \<Rightarrow> nat \<Rightarrow> exn + 'a" where
  "getitem xs i = (if i < length xs then Inr (xs ! i) else Inl IndexError)"

text \<open>\<^verbatim>\<open>xs.index(x)\<close>: the position of the first occurrence, ValueError when there is none.\<close>

fun list_index :: "'a list \<Rightarrow> 'a \<Rightarrow> exn + nat" where
  "list_index [] x = Inl ValueError"
| "list_index (y # ys) x =
     (if y = x then Inr 0
      else (case list_index ys x of Inl e \<Rightarrow> Inl e | Inr n \<Rightarrow> Inr (Suc n)))"

text \<open>The value of a run of decimal digits.\<close>

definition digits_value :: "string \<Rightarrow> nat" where
  "digits_value ds = foldl (\<lambda>acc c. 10 * acc + (of_char c - 48)) 0 ds"

text \<open>\<^verbatim>\<open>int(s)\<close> in base 10: surrounding whitespace is ignored, one sign is allowed, then
  decimal digits with single underscores between digits. Anything else raises ValueError,
  and so does a number of more than 4300 digits (the interpreter's default limit on
  integer string conversion). The whitespace \<^verbatim>\<open>int\<close> ignores is narrower than that of
  \<^verbatim>\<open>str.strip()\<close>: tab to carriage return, the space, and the whitespace characters from
  127 on (NEL and the no-break space); the separators FS, GS, RS and US are not ignored.\<close>

definition int_space :: "char \<Rightarrow> bool" where
  "int_space c =
     (let n = (of_char c :: nat)
      in (9 \<le> n \<and> n \<le> 13) \<or> n = 32 \<or> n = 133 \<or> n = 160)"

definition int_max_str_digits :: nat where
  "int_max_str_digits = 4300"

fun underscores_ok :: "string \<Rightarrow> bool" where
  "underscores_ok [] = True"
| "underscores_ok [c] = (c \<noteq> CHR ''_'')"
| "underscores_ok (c # d # cs) =
     (\<not> (c = CHR ''_'' \<and> d = CHR ''_'') \<and> underscores_ok (d # cs))"

definition int_body :: "string \<Rightarrow> exn + nat" where
  "int_body b =
     (let ds = filter (\<lambda>c. c \<noteq> CHR ''_'') b
      in if list_all (\<lambda>c. isdigit c \<or> c = CHR ''_'') b
            \<and> take 1 b \<noteq> [] \<and> take 1 b \<noteq> ''_'' \<and> underscores_ok b
            \<and> length ds \<le> int_max_str_digits
         then Inr (digits_value ds)
         else Inl ValueError)"

definition py_int :: "string \<Rightarrow> exn + int" where
  "py_int s =
     (case strip_where int_space s of
        [] \<Rightarrow> Inl ValueError
      | c # cs \<Rightarrow>
          if c = CHR ''-'' then
            (case int_body cs of Inl e \<Rightarrow> Inl e | Inr n \<Rightarrow> Inr (- int n))
          else if c = CHR ''+'' then
            (case int_body cs of Inl e \<Rightarrow> Inl e | Inr n \<Rightarrow> Inr (int n))
          else
            (case int_body (c # cs) of Inl e \<Rightarrow> Inl e | Inr n \<Rightarrow> Inr (int n)))"

text \<open>\<^verbatim>\<open>float(s)\<close> on the strings the parser passes to it, which consist of digits and
  dots only (see \<open>re_sub_non_numeric\<close>): digits with at most one dot and at least one digit
  convert, anything else raises ValueError. The result stands for the double that
  \<^verbatim>\<open>float\<close> returns for the decimal (the nearest one, zero for a decimal too small and
  \<^verbatim>\<open>inf\<close> for one too large, never an exception), and is kept as the exact decimal value:
  the model tells which conversions succeed and of which decimal, not the rounding.\<close>

definition py_float :: "string \<Rightarrow> exn + rat" where
  "py_float s =
     (let ds = takeWhile isdigit s
      in case dropWhile isdigit s of
           [] \<Rightarrow> if ds = [] then Inl ValueError else Inr (of_nat (digits_value ds))
         | c # fs \<Rightarrow>
             if c = CHR ''.'' \<and> list_all isdigit fs \<and> ds @ fs \<noteq> []
             then Inr (of_nat (digits_value (ds @ fs)) / 10 ^ length fs)
             else Inl ValueError)"

text \<open>\<^verbatim>\<open>re.sub(r'[^0-9.]', '', val)\<close>: every character that is neither a digit nor a dot
  is removed.\<close>

definition re_sub_non_numeric :: "string \<Rightarrow> string" where
  "re_sub_non_numeric val = filter (\<lambda>c. isdigit c \<or> c = CHR ''.'') val"

subsection \<open>The regular expression of the address test\<close>

text \<open>The fragment of \<^verbatim>\<open>re\<close> the source uses: \<^verbatim>\<open>\d\<close>, a literal character, concatenation
  and the bounded repetition \<^verbatim>\<open>r{m,n}\<close>. \<open>remainders r s\<close> lists what is left of \<open>s\<close> after
  each way of matching \<open>r\<close> at its start; the backtracking matcher of \<^verbatim>\<open>re.match\<close> finds a
  match exactly when there is one, and it does not look at what follows the match.\<close>

datatype regex = Digit | Lit char | Seq regex regex | Times regex nat nat

primrec iterate_remainders :: "nat \<Rightarrow> (string \<Rightarrow> string list) \<Rightarrow> string list \<Rightarrow> string list" where
  "iterate_remainders 0 f ss = ss"
| "iterate_remainders (Suc k) f ss = iterate_remainders k f (concat (map f ss))"

primrec remainders :: "regex \<Rightarrow> string \<Rightarrow> string list" where
  "remainders Digit s = (case s of [] \<Rightarrow> [] | c # cs \<Rightarrow> if isdigit c then [cs] else [])"
| "remainders (Lit a) s = (case s of [] \<Rightarrow> [] | c # cs \<Rightarrow> if c = a then [cs] else [])"
| "remainders (Seq r1 r2) s = concat (map (remainders r2) (remainders r1 s))"
| "remainders (Times r m n) s =
     concat (map (\<lambda>k. iterate_remainders k (remainders r) [s]) [m..<Suc n])"

definition re_match :: "regex \<Rightarrow> string \<Rightarrow> bool" where
  "re_match r s = (remainders r s \<noteq> [])"

text \<open>\<^verbatim>\<open>\d{1,3}(?:\.\d{1,3}){3}\<close>\<close>

definition ipv4_pattern :: regex where
  "ipv4_pattern =
     Seq (Times Digit 1 3) (Times (Seq (Lit (CHR ''.'')) (Times Digit 1 3)) 3 3)"

section \<open>\<^verbatim>\<open>parse_traceroute\<close>\<close>

text \<open>One element of the returned list: the dictionary with the keys \<^verbatim>\<open>hop\<close>, \<^verbatim>\<open>ip\<close>,
  \<^verbatim>\<open>hostname\<close> and \<^verbatim>\<open>rtt\<close>; \<^verbatim>\<open>None\<close> is \<open>None\<close>.\<close>

record hop_record =
  hop :: int
  ip :: "string option"
  hostname :: "string option"
  rtt :: "rat option list"

text \<open>The loop \<^verbatim>\<open>for i, token in enumerate(tokens)\<close> that collects the timing values:
  \<open>rtt_loop tokens rest i rtts\<close> has reached index \<open>i\<close>, with \<open>rest\<close> still to visit.\<close>

fun rtt_loop :: "string list \<Rightarrow> string list \<Rightarrow> nat \<Rightarrow> rat option list \<Rightarrow> exn + rat option list" where
  "rtt_loop tokens [] i rtts = Inr rtts"
| "rtt_loop tokens (token # rest) i rtts =
     (if token = ''ms'' \<and> i > 0 then
        (case getitem tokens (i - 1) of
           Inl e \<Rightarrow> Inl e
         | Inr val \<Rightarrow>
             if val = ''*'' then rtt_loop tokens rest (i + 1) (rtts @ [None])
             else
               (let cleaned = re_sub_non_numeric val
                in case py_float cleaned of
                     Inr f \<Rightarrow> rtt_loop tokens rest (i + 1) (rtts @ [Some f])
                   | Inl ValueError \<Rightarrow> rtt_loop tokens rest (i + 1) (rtts @ [None])
                   | Inl e \<Rightarrow> Inl e))
      else rtt_loop tokens rest (i + 1) rtts)"

text \<open>\<^verbatim>\<open>while len(rtts) < 3: rtts.append(None)\<close>\<close>

function pad_rtts :: "rat option list \<Rightarrow> rat option list" where
  "pad_rtts rtts = (if length rtts < 3 then pad_rtts (rtts @ [None]) else rtts)"
  by pat_completeness auto
termination
  by (relation "measure (\<lambda>rtts. 3 - length rtts)") auto

declare pad_rtts.simps [simp del]

text \<open>\<^verbatim>\<open>id_end = tokens.index("ms") - 1 if "ms" in tokens else len(tokens)\<close>\<close>

definition id_end_of :: "string list \<Rightarrow> exn + int" where
  "id_end_of tokens =
     (if ''ms'' \<in> set tokens then
        (case list_index tokens ''ms'' of Inl e \<Rightarrow> Inl e | Inr k \<Rightarrow> Inr (int k - 1))
      else Inr (int (length tokens)))"

text \<open>\<^verbatim>\<open>id_tokens = tokens[1:id_end] if id_end > 1 else tokens[1:]\<close>\<close>

definition id_tokens_of :: "string list \<Rightarrow> int \<Rightarrow> string list" where
  "id_tokens_of tokens id_end =
     (if id_end > 1 then drop 1 (take (nat id_end) tokens) else drop 1 tokens)"

text \<open>The loop \<^verbatim>\<open>for j, token in enumerate(id_tokens)\<close>, which ends at its \<^verbatim>\<open>break\<close>; the
  result is the pair \<open>(ip, hostname)\<close>, both \<open>None\<close> before the loop.\<close>

fun id_loop :: "string list \<Rightarrow> string list \<Rightarrow> nat \<Rightarrow> exn + (string option \<times> string option)" where
  "id_loop id_tokens [] j = Inr (None, None)"
| "id_loop id_tokens (token # rest) j =
     (let candidate = strip_parens token
      in if re_match ipv4_pattern candidate then
           (if j > 0 then
              (case getitem id_tokens (j - 1) of
                 Inl e \<Rightarrow> Inl e
               | Inr t \<Rightarrow>
                   (let prev = strip_parens t
                    in if \<not> re_match ipv4_pattern prev then Inr (Some candidate, Some t)
                       else Inr (Some candidate, None)))
            else Inr (Some candidate, None))
         else id_loop id_tokens rest (j + 1))"

text \<open>Lines 118 to 125: the two adjustments after the scan.\<close>

definition timeout_reconcile :: "string list \<Rightarrow> string option \<times> string option \<Rightarrow> string option \<times> string option" where
  "timeout_reconcile tokens p =
     (case p of (ip_v, hostname_v) \<Rightarrow>
        if ip_v = None then (if ''*'' \<in> set tokens then (None, None) else (ip_v, hostname_v))
        else (ip_v, hostname_v))"

definition drop_self_reference :: "string option \<times> string option \<Rightarrow> string option \<times> string option" where
  "drop_self_reference p =
     (case p of
        (Some ip_v, Some hostname_v) \<Rightarrow>
          if strip_parens hostname_v = ip_v then (Some ip_v, None)
          else (Some ip_v, Some hostname_v)
      | _ \<Rightarrow> p)"

text \<open>The body of the loop over the lines: \<open>Inr None\<close> is \<^verbatim>\<open>continue\<close>, \<open>Inr (Some r)\<close> is
  the record appended to \<^verbatim>\<open>result\<close>, \<open>Inl e\<close> an exception that leaves the function.\<close>

definition parse_line :: "string \<Rightarrow> exn + hop_record option" where
  "parse_line line =
     (if strip line = [] then Inr None
      else
        (let tokens = split line
         in case (case getitem tokens 0 of Inl e \<Rightarrow> Inl e | Inr t \<Rightarrow> py_int t) of
              Inl ValueError \<Rightarrow> Inr None
            | Inl e \<Rightarrow> Inl e
            | Inr hop_no \<Rightarrow>
                (case rtt_loop tokens tokens 0 [] of
                   Inl e \<Rightarrow> Inl e
                 | Inr rtts0 \<Rightarrow>
                     (let rtts = take 3 (pad_rtts rtts0)
                      in case id_end_of tokens of
                           Inl e \<Rightarrow> Inl e
                         | Inr id_end \<Rightarrow>
                             (case id_loop (id_tokens_of tokens id_end) (id_tokens_of tokens id_end) 0 of
                                Inl e \<Rightarrow> Inl e
                              | Inr found \<Rightarrow>
                                  (case drop_self_reference (timeout_reconcile tokens found) of
                                     (ip_v, hostname_v) \<Rightarrow>
                                       Inr (Some \<lparr>hop = hop_no, ip = ip_v,
                                                  hostname = hostname_v, rtt = rtts\<rparr>)))))))"

text \<open>\<^verbatim>\<open>for line in lines[1:]\<close> with the list \<^verbatim>\<open>result\<close> as the state.\<close>

fun lines_loop :: "string list \<Rightarrow> hop_record list \<Rightarrow> exn + hop_record list" where
  "lines_loop [] result = Inr result"
| "lines_loop (line # rest) result =
     (case parse_line line of
        Inl e \<Rightarrow> Inl e
      | Inr None \<Rightarrow> lines_loop rest result
      | Inr (Some r) \<Rightarrow> lines_loop rest (result @ [r]))"

definition parse_traceroute :: "string \<Rightarrow> exn + hop_record list" where
  "parse_traceroute traceroute_output =
     (let lines = splitlines (strip traceroute_output)
      in if lines = [] then Inr [] else lines_loop (drop 1 lines) [])"

section \<open>What the loops compute\<close>

text \<open>The definitions of this section describe the results of the loops above without
  their indices and accumulators; the lemmas below prove that the loops compute them.\<close>

text \<open>The timing value of lines 90 to 98 for the token \<open>val\<close> standing before a unit marker.\<close>

definition timing_value :: "string \<Rightarrow> rat option" where
  "timing_value val =
     (if val = ''*'' then None
      else case py_float (re_sub_non_numeric val) of Inr f \<Rightarrow> Some f | Inl e \<Rightarrow> None)"

text \<open>The timing values of a line, in order: one for every token \<^verbatim>\<open>ms\<close> at a position
  \<open>k > 0\<close>, read from the token at position \<open>k - 1\<close>.\<close>

definition timings :: "string list \<Rightarrow> rat option list" where
  "timings tokens =
     map (\<lambda>k. timing_value (tokens ! (k - 1)))
       (filter (\<lambda>k. tokens ! k = ''ms'' \<and> 0 < k) [0..<length tokens])"

text \<open>The identity span, with \<open>k\<close> the position of the first \<^verbatim>\<open>ms\<close> token (the number of
  tokens when there is none): the tokens after the hop number and before the token that
  precedes the first \<^verbatim>\<open>ms\<close> when \<open>k > 2\<close>, and every token after the hop number when
  there is no \<^verbatim>\<open>ms\<close> or \<open>k \<le> 2\<close>.\<close>

definition id_span :: "string list \<Rightarrow> string list" where
  "id_span tokens =
     (let k = length (takeWhile (\<lambda>t. t \<noteq> ''ms'') tokens)
      in if k < length tokens \<and> 2 < k then take (k - 2) (drop 1 tokens) else drop 1 tokens)"

text \<open>The test of lines 109 and 110 on a token.\<close>

definition is_address_token :: "string \<Rightarrow> bool" where
  "is_address_token t = re_match ipv4_pattern (strip_parens t)"

text \<open>The identity pair (address, hostname) of a span for a given shape test: the first
  token whose form without enclosing parentheses has the shape gives the address, in that
  form; the token just before it in the span, when there is one, gives the hostname, as it
  stands.\<close>

definition first_identity :: "(string \<Rightarrow> bool) \<Rightarrow> string list \<Rightarrow> string option \<times> string option" where
  "first_identity shape ids =
     (let before = takeWhile (\<lambda>t. \<not> shape (strip_parens t)) ids
      in case find (\<lambda>t. shape (strip_parens t)) ids of
           None \<Rightarrow> (None, None)
         | Some t \<Rightarrow> (Some (strip_parens t), if before = [] then None else Some (last before)))"

text \<open>The record a line contributes, if any.\<close>

definition line_record :: "string \<Rightarrow> hop_record option" where
  "line_record line = (case parse_line line of Inr r \<Rightarrow> r | Inl e \<Rightarrow> None)"

text \<open>The hop number a line carries, if any: its first token, when \<^verbatim>\<open>int\<close> converts it.\<close>

definition line_hop :: "string \<Rightarrow> int option" where
  "line_hop line =
     (case split line of
        [] \<Rightarrow> None
      | t # ts \<Rightarrow> (case py_int t of Inl e \<Rightarrow> None | Inr h \<Rightarrow> Some h))"

section \<open>The identity scan in the words of the specification\<close>

text \<open>The shape the specification asks of an address: the whole string, not only its
  beginning, is four groups of one to three digits separated by dots.\<close>

definition ipv4_shaped :: "string \<Rightarrow> bool" where
  "ipv4_shaped s = ([] \<in> set (remainders ipv4_pattern s))"

text \<open>The span of claim C2: the tokens strictly between the hop number and the first
  \<^verbatim>\<open>ms\<close> token, or the rest of the line when there is no \<^verbatim>\<open>ms\<close> token.\<close>

definition claimed_id_span :: "string list \<Rightarrow> string list" where
  "claimed_id_span tokens = drop 1 (takeWhile (\<lambda>t. t \<noteq> ''ms'') tokens)"

text \<open>The address and hostname claim C2 describes for the tokens of a line.\<close>

definition claimed_identity :: "string list \<Rightarrow> string option \<times> string option" where
  "claimed_identity tokens = first_identity ipv4_shaped (claimed_id_span tokens)"

section \<open>\<^verbatim>\<open>execute_traceroute\<close>\<close>

text \<open>The function returns what \<^verbatim>\<open>subprocess.run\<close> captured on standard output, which is
  a \<^verbatim>\<open>bytes\<close> object since the call passes neither \<^verbatim>\<open>text\<close> nor an encoding, or the
  empty \<^verbatim>\<open>str\<close> from its handler.\<close>

datatype py_text = Str string | Bytes string

text \<open>The \<^verbatim>\<open>CompletedProcess\<close> that \<^verbatim>\<open>subprocess.run\<close> returns.\<close>

record completed_process =
  returncode :: int
  stdout :: string
  stderr :: string

text \<open>\<open>run argv\<close> stands for \<^verbatim>\<open>subprocess.run(argv, capture_output=True)\<close> on the machine at
  hand: it returns a completed process or raises. The handler catches
  \<^verbatim>\<open>CalledProcessError\<close> and nothing else; its call of \<^verbatim>\<open>logging.debug\<close> is left out.\<close>

definition execute_traceroute ::
    "(string list \<Rightarrow> exn + completed_process) \<Rightarrow> string \<Rightarrow> exn + py_text" where
  "execute_traceroute run destination =
     (case run [''traceroute'', ''-I'', destination] of
        Inr result \<Rightarrow> Inr (Bytes (stdout result))
      | Inl CalledProcessError \<Rightarrow> Inr (Str [])
      | Inl e \<Rightarrow> Inl e)"

section \<open>Properties of the built-ins and of the loops\<close>

lemma py_float_raises: "py_float s = Inl e \<Longrightarrow> e = ValueError"
  by (auto simp: py_float_def Let_def split: list.splits if_splits)

lemma int_body_raises: "int_body b = Inl e \<Longrightarrow> e = ValueError"
  by (auto simp: int_body_def Let_def split: if_splits)

lemma py_int_raises: "py_int s = Inl e \<Longrightarrow> e = ValueError"
  by (auto simp: py_int_def dest: int_body_raises split: list.splits if_splits sum.splits)

lemma rtt_loop_step:
  assumes "i < length tokens"
  shows "rtt_loop tokens (tokens ! i # rest) i rtts =
           rtt_loop tokens rest (i + 1)
             (if tokens ! i = ''ms'' \<and> 0 < i then rtts @ [timing_value (tokens ! (i - 1))] else rtts)"
proof (cases "tokens ! i = ''ms'' \<and> 0 < i")
  case False
  then show ?thesis by auto
next
  case True
  then have g: "getitem tokens (i - 1) = Inr (tokens ! (i - 1))"
    using assms by (simp add: getitem_def)
  show ?thesis
  proof (cases "py_float (re_sub_non_numeric (tokens ! (i - 1)))")
    case (Inl e)
    then have "e = ValueError" by (rule py_float_raises)
    with Inl True g show ?thesis by (simp add: Let_def timing_value_def)
  next
    case (Inr f)
    with True g show ?thesis by (simp add: Let_def timing_value_def)
  qed
qed

lemma rtt_loop_from:
  "i \<le> length tokens \<Longrightarrow>
   rtt_loop tokens (drop i tokens) i rtts =
     Inr (rtts @ map (\<lambda>k. timing_value (tokens ! (k - 1)))
                  (filter (\<lambda>k. tokens ! k = ''ms'' \<and> 0 < k) [i..<length tokens]))"
proof (induction "length tokens - i" arbitrary: i rtts)
  case 0
  then show ?case by simp
next
  case (Suc n)
  then have lt: "i < length tokens" by simp
  then have d: "drop i tokens = tokens ! i # drop (Suc i) tokens"
    by (simp add: Cons_nth_drop_Suc)
  have u: "[i..<length tokens] = i # [Suc i..<length tokens]"
    using lt by (simp add: upt_conv_Cons)
  have n: "n = length tokens - Suc i" using Suc.hyps(2) by simp
  have le: "Suc i \<le> length tokens" using lt by simp
  show ?case
    unfolding d rtt_loop_step [OF lt] u
    using Suc.hyps(1) [OF n le] by simp
qed

lemma rtt_loop_eq: "rtt_loop tokens tokens 0 [] = Inr (timings tokens)"
  using rtt_loop_from [of 0 tokens "[]"] by (simp add: timings_def)

lemma pad_rtts_eq: "pad_rtts rtts = rtts @ replicate (3 - length rtts) None"
proof (induction rtts rule: pad_rtts.induct)
  case (1 rtts)
  show ?case
  proof (cases "length rtts < 3")
    case True
    then have "3 - length rtts = Suc (3 - length (rtts @ [None]))" by simp
    then have "replicate (3 - length rtts) (None :: rat option)
               = None # replicate (3 - length (rtts @ [None])) None"
      by (simp only: replicate_Suc)
    with True 1 show ?thesis by (subst pad_rtts.simps) simp
  next
    case False
    then show ?thesis by (subst pad_rtts.simps) simp
  qed
qed

lemma length_take_pad_rtts: "length (take 3 (pad_rtts rtts)) = 3"
proof -
  have "length (pad_rtts rtts) = length rtts + (3 - length rtts)"
    by (simp add: pad_rtts_eq)
  then show ?thesis by simp
qed

lemma re_sub_non_numeric_chars:
  "list_all (\<lambda>c. isdigit c \<or> c = CHR ''.'') (re_sub_non_numeric val)"
  by (simp add: re_sub_non_numeric_def list_all_iff)

lemma split_from_nonempty:
  "cur \<noteq> [] \<or> (\<exists>c\<in>set s. \<not> isspace c) \<Longrightarrow> split_from cur s \<noteq> []"
  by (induction s arbitrary: cur) auto

lemma strip_where_empty_iff: "strip_where p s = [] \<longleftrightarrow> (\<forall>c\<in>set s. p c)"
proof -
  have "dropWhile p (rev (dropWhile p s)) = [] \<longleftrightarrow> dropWhile p s = []"
  proof
    assume a: "dropWhile p (rev (dropWhile p s)) = []"
    show "dropWhile p s = []"
    proof (rule ccontr)
      assume n: "dropWhile p s \<noteq> []"
      then have "\<not> p (hd (dropWhile p s))" by (rule hd_dropWhile)
      moreover have "hd (dropWhile p s) \<in> set (rev (dropWhile p s))" using n by simp
      ultimately show False using a by (simp only: dropWhile_eq_Nil_conv) blast
    qed
  qed (auto dest: set_dropWhileD)
  then show ?thesis by (simp add: strip_where_def dropWhile_eq_Nil_conv)
qed

lemma split_nonempty: "strip line \<noteq> [] \<Longrightarrow> split line \<noteq> []"
  unfolding split_def strip_def
  by (rule split_from_nonempty) (simp add: strip_where_empty_iff)

lemma list_index_eq:
  "x \<in> set xs \<Longrightarrow> list_index xs x = Inr (length (takeWhile (\<lambda>y. y \<noteq> x) xs))"
  by (induction xs) auto

lemma takeWhile_length_less_iff: "length (takeWhile (\<lambda>y. y \<noteq> x) xs) < length xs \<longleftrightarrow> x \<in> set xs"
  by (induction xs) auto

lemma id_tokens_of_id_end:
  "\<exists>id_end. id_end_of tokens = Inr id_end \<and> id_tokens_of tokens id_end = id_span tokens"
proof (cases "''ms'' \<in> set tokens")
  case True
  let ?k = "length (takeWhile (\<lambda>t. t \<noteq> ''ms'') tokens)"
  have e: "id_end_of tokens = Inr (int ?k - 1)"
    using True by (simp add: id_end_of_def list_index_eq)
  have lt: "?k < length tokens" using True by (simp add: takeWhile_length_less_iff)
  have "id_tokens_of tokens (int ?k - 1) = id_span tokens"
  proof (cases "2 < ?k")
    case True
    then have "nat (int ?k - 1) = ?k - 1" by simp
    moreover have "drop 1 (take (?k - 1) tokens) = take (?k - 2) (drop 1 tokens)"
      using True by (simp add: drop_take numeral_2_eq_2)
    ultimately show ?thesis using True lt by (simp add: id_tokens_of_def id_span_def Let_def)
  next
    case False
    then show ?thesis by (simp add: id_tokens_of_def id_span_def Let_def)
  qed
  with e show ?thesis by simp
next
  case False
  then have k: "length (takeWhile (\<lambda>t. t \<noteq> ''ms'') tokens) = length tokens"
    using takeWhile_length_less_iff [of "''ms''" tokens] length_takeWhile_le [of "\<lambda>t. t \<noteq> ''ms''" tokens]
    by simp
  have "id_end_of tokens = Inr (int (length tokens))" using False by (simp add: id_end_of_def)
  moreover have "id_tokens_of tokens (int (length tokens)) = id_span tokens"
    using k by (simp add: id_tokens_of_def id_span_def)
  ultimately show ?thesis by simp
qed

lemma id_loop_scan:
  "\<forall>t\<in>set pre. \<not> is_address_token t \<Longrightarrow>
   id_loop (pre @ rest) rest (length pre) =
     Inr (map_option strip_parens (find is_address_token rest),
          if find is_address_token rest \<noteq> None \<and> pre @ takeWhile (\<lambda>t. \<not> is_address_token t) rest \<noteq> []
          then Some (last (pre @ takeWhile (\<lambda>t. \<not> is_address_token t) rest)) else None)"
proof (induction rest arbitrary: pre)
  case Nil
  then show ?case by simp
next
  case (Cons t rest)
  show ?case
  proof (cases "is_address_token t")
    case True
    show ?thesis
    proof (cases "pre = []")
      case True
      with \<open>is_address_token t\<close> show ?thesis by (simp add: is_address_token_def)
    next
      case False
      then have "getitem (pre @ t # rest) (length pre - 1) = Inr (last pre)"
        by (simp add: getitem_def nth_append last_conv_nth)
      moreover have "\<not> is_address_token (last pre)" using False Cons.prems by simp
      ultimately show ?thesis using False \<open>is_address_token t\<close>
        by (simp add: is_address_token_def)
    qed
  next
    case False
    have "id_loop ((pre @ [t]) @ rest) rest (length (pre @ [t])) =
            Inr (map_option strip_parens (find is_address_token rest),
              if find is_address_token rest \<noteq> None \<and> (pre @ [t]) @ takeWhile (\<lambda>t. \<not> is_address_token t) rest \<noteq> []
              then Some (last ((pre @ [t]) @ takeWhile (\<lambda>t. \<not> is_address_token t) rest)) else None)"
      using Cons.prems False by (intro Cons.IH) simp
    moreover have "id_loop (pre @ t # rest) (t # rest) (length pre)
                     = id_loop (pre @ t # rest) rest (length pre + 1)"
      using False by (simp add: is_address_token_def)
    ultimately show ?thesis using False by simp
  qed
qed

lemma id_loop_eq: "id_loop ids ids 0 = Inr (first_identity (re_match ipv4_pattern) ids)"
  using id_loop_scan [of "[]" ids, unfolded is_address_token_def]
  by (cases "find (\<lambda>t. re_match ipv4_pattern (strip_parens t)) ids")
     (simp_all add: first_identity_def Let_def)

lemma first_identity_shape:
  assumes "first_identity shape ids = (Some a, hn)"
  shows "shape a"
  using assms
  by (auto simp: first_identity_def Let_def split: option.splits dest: find_Some_iff [THEN iffD1])

lemma first_identity_hostname_shape:
  assumes "first_identity shape ids = (a, Some h)"
  shows "\<not> shape (strip_parens h)"
proof -
  let ?before = "takeWhile (\<lambda>t. \<not> shape (strip_parens t)) ids"
  from assms have "?before \<noteq> []" and "h = last ?before"
    by (auto simp: first_identity_def Let_def split: option.splits if_splits)
  then have "h \<in> set ?before" by simp
  then show ?thesis by (rule set_takeWhileD [THEN conjunct2])
qed

lemma first_identity_no_address:
  "first_identity shape ids = (None, hn) \<Longrightarrow> hn = None"
  by (auto simp: first_identity_def Let_def split: option.splits)

lemma reconcile_first_identity:
  "drop_self_reference (timeout_reconcile tokens (first_identity shape ids))
     = first_identity shape ids"
proof (cases "first_identity shape ids")
  case (Pair a hn)
  show ?thesis
  proof (cases a)
    case None
    with Pair have "hn = None" by (simp add: first_identity_no_address)
    with None Pair show ?thesis by (simp add: timeout_reconcile_def drop_self_reference_def)
  next
    case (Some a')
    show ?thesis
    proof (cases hn)
      case None
      with Some Pair show ?thesis by (simp add: timeout_reconcile_def drop_self_reference_def)
    next
      case (Some h)
      have "shape a'" using Pair \<open>a = Some a'\<close> first_identity_shape by blast
      moreover have "\<not> shape (strip_parens h)"
        using Pair Some first_identity_hostname_shape by blast
      ultimately have "strip_parens h \<noteq> a'" by auto
      with Some Pair \<open>a = Some a'\<close> show ?thesis
        by (simp add: timeout_reconcile_def drop_self_reference_def)
    qed
  qed
qed

lemma parse_line_blank: "strip line = [] \<Longrightarrow> parse_line line = Inr None"
  by (simp add: parse_line_def)

lemma parse_line_not_hop:
  assumes "split line = t # ts" and "py_int t = Inl e"
  shows "parse_line line = Inr None"
proof -
  have "e = ValueError" using assms(2) by (rule py_int_raises)
  with assms show ?thesis by (simp add: parse_line_def getitem_def)
qed

lemma parse_line_hop:
  assumes "strip line \<noteq> []" and "split line = t # ts" and "py_int t = Inr h"
  shows "parse_line line =
           Inr (Some \<lparr>hop = h,
                      ip = fst (first_identity (re_match ipv4_pattern) (id_span (split line))),
                      hostname = snd (first_identity (re_match ipv4_pattern) (id_span (split line))),
                      rtt = take 3 (pad_rtts (timings (split line)))\<rparr>)"
proof -
  obtain id_end where e: "id_end_of (split line) = Inr id_end"
      and s: "id_tokens_of (split line) id_end = id_span (split line)"
    using id_tokens_of_id_end by blast
  have g: "getitem (split line) 0 = Inr t" using assms(2) by (simp add: getitem_def)
  show ?thesis
    using assms(1,3) e s g
    by (simp add: parse_line_def Let_def id_loop_eq rtt_loop_eq reconcile_first_identity
          split: prod.splits)
qed

lemma parse_line_cases:
  obtains (skipped) "parse_line line = Inr None"
    | (hop) t ts h where "strip line \<noteq> []" and "split line = t # ts" and "py_int t = Inr h"
        and "parse_line line =
           Inr (Some \<lparr>hop = h,
                      ip = fst (first_identity (re_match ipv4_pattern) (id_span (split line))),
                      hostname = snd (first_identity (re_match ipv4_pattern) (id_span (split line))),
                      rtt = take 3 (pad_rtts (timings (split line)))\<rparr>)"
proof (cases "strip line = []")
  case True
  then show ?thesis using skipped parse_line_blank by blast
next
  case False
  then obtain t ts where s: "split line = t # ts"
    using split_nonempty [of line] by (cases "split line") auto
  show ?thesis
  proof (cases "py_int t")
    case (Inl e)
    with s show ?thesis using skipped parse_line_not_hop by blast
  next
    case (Inr h)
    with s False show ?thesis using hop parse_line_hop by blast
  qed
qed

lemma parse_line_eq: "parse_line line = Inr (line_record line)"
  by (rule parse_line_cases [of line]) (simp_all add: line_record_def)

lemma lines_loop_eq: "lines_loop lines acc = Inr (acc @ List.map_filter line_record lines)"
proof (induction lines arbitrary: acc)
  case Nil
  then show ?case by (simp add: List.map_filter_simps)
next
  case (Cons line lines)
  then show ?case
    by (cases "line_record line") (simp_all add: parse_line_eq List.map_filter_simps)
qed

lemma parse_traceroute_eq:
  "parse_traceroute s = Inr (List.map_filter line_record (drop 1 (splitlines (strip s))))"
  by (simp add: parse_traceroute_def Let_def lines_loop_eq List.map_filter_simps)

lemma record_from_line:
  assumes "parse_traceroute s = Inr records" and "r \<in> set records"
  shows "\<exists>line\<in>set (drop 1 (splitlines (strip s))). parse_line line = Inr (Some r)"
proof -
  from assms have "r \<in> set (List.map_filter line_record (drop 1 (splitlines (strip s))))"
    by (simp add: parse_traceroute_eq)
  then obtain line where "line \<in> set (drop 1 (splitlines (strip s)))" and "line_record line = Some r"
    by (auto simp: List.map_filter_def)
  then show ?thesis by (auto simp: parse_line_eq)
qed

lemma parse_line_SomeD:
  assumes "parse_line line = Inr (Some r)"
  shows "ip r = fst (first_identity (re_match ipv4_pattern) (id_span (split line)))"
    and "hostname r = snd (first_identity (re_match ipv4_pattern) (id_span (split line)))"
    and "rtt r = take 3 (pad_rtts (timings (split line)))"
    and "\<exists>t ts. split line = t # ts \<and> py_int t = Inr (hop r)"
  using assms by (rule_tac [!] parse_line_cases [of line]) auto

lemma find_nth_takeWhile:
  "find P xs = Some t \<Longrightarrow>
   length (takeWhile (\<lambda>x. \<not> P x) xs) < length xs \<and> xs ! length (takeWhile (\<lambda>x. \<not> P x) xs) = t"
  by (induction xs) (auto split: if_splits)

lemma id_span_nth:
  assumes "k < length (id_span tokens)"
  shows "Suc k < length tokens \<and> id_span tokens ! k = tokens ! Suc k"
  using assms by (auto simp: id_span_def Let_def split: if_splits)

lemma strip_where_ends:
  assumes "strip_where p s \<noteq> []"
  shows "\<not> p (hd (strip_where p s))" and "\<not> p (last (strip_where p s))"
proof -
  let ?d = "dropWhile p s"
  let ?e = "dropWhile p (rev ?d)"
  have e: "?e \<noteq> []" using assms by (simp add: strip_where_def)
  then have he: "\<not> p (hd ?e)" by (rule hd_dropWhile)
  have d: "?d \<noteq> []"
  proof
    assume "?d = []"
    then have "?e = []" by (simp only: rev.simps dropWhile.simps)
    with e show False ..
  qed
  then have hd: "\<not> p (hd ?d)" by (rule hd_dropWhile)
  have "takeWhile p (rev ?d) @ ?e = rev ?d" by (rule takeWhile_dropWhile_id)
  then have "last (rev ?d) = last ?e" using e by (metis last_appendR)
  then have le: "last ?e = hd ?d" using d by (simp add: last_rev)
  show "\<not> p (hd (strip_where p s))"
    using e hd le by (simp add: strip_where_def hd_rev)
  show "\<not> p (last (strip_where p s))"
    using e he by (simp add: strip_where_def last_rev)
qed

lemma strip_where_idem: "strip_where p (strip_where p s) = strip_where p s"
proof (cases "strip_where p s = []")
  case True
  have "strip_where p [] = []" by (simp add: strip_where_def)
  with True show ?thesis by (simp only:)
next
  case False
  let ?u = "strip_where p s"
  have 1: "dropWhile p ?u = ?u"
    using False strip_where_ends(1) [OF False] by (cases ?u) auto
  have "rev ?u \<noteq> []" using False by simp
  moreover have "\<not> p (hd (rev ?u))" using False strip_where_ends(2) [OF False] by (simp add: hd_rev)
  ultimately have 2: "dropWhile p (rev ?u) = rev ?u" by (cases "rev ?u") auto
  show ?thesis by (subst (1) strip_where_def) (simp only: 1 2 rev_rev_ident)
qed

lemma find_Some_member: "find P xs = Some x \<Longrightarrow> x \<in> set xs"
  by (induction xs) (auto split: if_splits)

lemma first_identity_positions:
  assumes "first_identity shape ids = (a, Some h)"
  shows "\<exists>k. Suc k < length ids \<and> ids ! k = h \<and> a = Some (strip_parens (ids ! Suc k))"
proof -
  let ?P = "\<lambda>t. shape (strip_parens t)"
  let ?before = "takeWhile (\<lambda>t. \<not> ?P t) ids"
  from assms obtain t where t: "find ?P ids = Some t" and b: "?before \<noteq> []"
    and h: "h = last ?before" and a: "a = Some (strip_parens t)"
    by (auto simp: first_identity_def Let_def split: option.splits if_splits)
  from find_nth_takeWhile [OF t] have lt: "length ?before < length ids"
    and nth: "ids ! length ?before = t" by simp_all
  from b obtain k where k: "length ?before = Suc k" by (cases ?before) auto
  have "last ?before = ?before ! k" using b k by (simp add: last_conv_nth)
  also have "\<dots> = ids ! k" using k by (simp add: takeWhile_nth)
  finally have "ids ! k = h" using h by simp
  with lt nth k a show ?thesis by auto
qed

lemma first_identity_address_token:
  assumes "first_identity shape ids = (Some a, hn)"
  shows "\<exists>t\<in>set ids. a = strip_parens t"
  using assms
  by (auto simp: first_identity_def Let_def split: option.splits dest: find_Some_member)

lemma id_span_subset: "set (id_span tokens) \<subseteq> set (drop 1 tokens)"
  by (auto simp: id_span_def Let_def dest: in_set_takeD split: if_splits)

lemma split_from_blank: "\<forall>c\<in>set s. isspace c \<Longrightarrow> split_from [] s = []"
  by (induction s) auto

lemma split_blank: "strip line = [] \<Longrightarrow> split line = []"
  by (simp add: strip_def split_def strip_where_empty_iff split_from_blank)

lemma line_record_hop: "map_option hop (line_record line) = line_hop line"
proof (rule parse_line_cases [of line])
  assume s: "parse_line line = Inr None"
  show ?thesis
  proof (cases "split line")
    case Nil
    with s show ?thesis by (simp add: line_record_def line_hop_def)
  next
    case (Cons t ts)
    show ?thesis
    proof (cases "py_int t")
      case (Inl e)
      with Cons s show ?thesis by (simp add: line_record_def line_hop_def)
    next
      case (Inr h)
      have "strip line \<noteq> []" using Cons split_blank [of line] by auto
      with Cons Inr s parse_line_hop [of line t ts h] show ?thesis by simp
    qed
  qed
next
  fix t ts h
  assume "split line = t # ts" and "py_int t = Inr h" and
    "parse_line line =
           Inr (Some \<lparr>hop = h,
                      ip = fst (first_identity (re_match ipv4_pattern) (id_span (split line))),
                      hostname = snd (first_identity (re_match ipv4_pattern) (id_span (split line))),
                      rtt = take 3 (pad_rtts (timings (split line)))\<rparr>)"
  then show ?thesis by (simp add: line_record_def line_hop_def)
qed

lemma map_map_filter: "map f (List.map_filter g xs) = List.map_filter (\<lambda>x. map_option f (g x)) xs"
  by (induction xs) (auto simp: List.map_filter_simps split: option.splits)

lemma splitlines_from_first_line:
  assumes "\<forall>c\<in>set h. \<not> is_linebreak c"
  shows "splitlines_from cur (h @ CHR 0x0A # rest) = (rev cur @ h) # splitlines_from [] rest"
  using assms
proof (induction h arbitrary: cur)
  case Nil
  have "is_linebreak (CHR 0x0A)" by (simp add: is_linebreak_def)
  then show ?case by (cases rest) simp_all
next
  case (Cons c h)
  have cr: "is_linebreak (CHR 0x0D)" by (simp add: is_linebreak_def)
  have c: "\<not> is_linebreak c" using Cons.prems by simp
  then have "c \<noteq> CHR 0x0D" using cr by auto
  obtain d ds where d: "h @ CHR 0x0A # rest = d # ds" by (cases "h @ CHR 0x0A # rest") auto
  have "splitlines_from cur (c # d # ds) = splitlines_from (c # cur) (d # ds)"
    using c \<open>c \<noteq> CHR 0x0D\<close> by simp
  also have "\<dots> = (rev (c # cur) @ h) # splitlines_from [] rest"
    unfolding d [symmetric] using Cons.prems by (intro Cons.IH) simp
  finally show ?case using d by simp
qed

lemma strip_header_line:
  assumes "\<exists>c\<in>set header. \<not> isspace c" and "line \<noteq> []" and "\<not> isspace (last line)"
  shows "strip (header @ CHR 0x0A # line) = dropWhile isspace header @ CHR 0x0A # line"
proof -
  have 1: "dropWhile isspace (header @ CHR 0x0A # line) = dropWhile isspace header @ CHR 0x0A # line"
    using assms(1) by (auto simp: dropWhile_append1)
  obtain c cs where r: "rev line = c # cs" and c: "\<not> isspace c"
    using assms(2,3) by (cases "rev line") (auto simp: last_rev [symmetric] simp del: last_rev)
  have "dropWhile isspace (rev (dropWhile isspace header @ CHR 0x0A # line))
          = rev (dropWhile isspace header @ CHR 0x0A # line)"
    using r c by simp
  then show ?thesis by (simp add: strip_def strip_where_def 1)
qed

lemma parse_after_header:
  assumes "\<exists>c\<in>set header. \<not> isspace c" and "\<forall>c\<in>set header. \<not> is_linebreak c"
    and "line \<noteq> []" and "\<not> isspace (last line)"
  shows "parse_traceroute (header @ CHR 0x0A # line) = lines_loop (splitlines_from [] line) []"
proof -
  have "\<forall>c\<in>set (dropWhile isspace header). \<not> is_linebreak c"
    using assms(2) by (auto dest: set_dropWhileD)
  then have "splitlines (strip (header @ CHR 0x0A # line))
               = dropWhile isspace header # splitlines_from [] line"
    using splitlines_from_first_line [of "dropWhile isspace header" "[]" line]
    by (simp add: strip_header_line [OF assms(1,3,4)] splitlines_def)
  then show ?thesis by (simp add: parse_traceroute_def)
qed

lemma ipv4_shaped_match: "ipv4_shaped s \<Longrightarrow> re_match ipv4_pattern s"
  by (auto simp: ipv4_shaped_def re_match_def)

lemma find_takeWhile_narrow:
  assumes "\<forall>t. find p ids = Some t \<longrightarrow> q t" and "\<forall>t. q t \<longrightarrow> p t"
  shows "find q ids = find p ids \<and> takeWhile (\<lambda>t. \<not> q t) ids = takeWhile (\<lambda>t. \<not> p t) ids"
  using assms
proof (induction ids)
  case Nil
  then show ?case by simp
next
  case (Cons x ids)
  show ?case
  proof (cases "p x")
    case True
    then have "q x" using Cons.prems(1) by simp
    with True show ?thesis by simp
  next
    case False
    then have nq: "\<not> q x" using Cons.prems(2) by blast
    have "\<forall>t. find p ids = Some t \<longrightarrow> q t" using Cons.prems(1) False by simp
    from Cons.IH [OF this Cons.prems(2)] False nq show ?thesis by simp
  qed
qed

lemma first_identity_narrow:
  assumes "\<forall>t. find (\<lambda>t. p (strip_parens t)) ids = Some t \<longrightarrow> q (strip_parens t)"
    and "\<forall>s. q s \<longrightarrow> p s"
  shows "first_identity q ids = first_identity p ids"
proof -
  have "find (\<lambda>t. q (strip_parens t)) ids = find (\<lambda>t. p (strip_parens t)) ids \<and>
        takeWhile (\<lambda>t. \<not> q (strip_parens t)) ids = takeWhile (\<lambda>t. \<not> p (strip_parens t)) ids"
    using assms by (intro find_takeWhile_narrow) auto
  then show ?thesis by (simp add: first_identity_def)
qed

section \<open>The claims\<close>

subsection \<open>C3: three round-trip times in every record\<close>

text \<open>
  C3. Every record returned by \<open>parse_traceroute\<close> has exactly three round-trip times,
  whatever the input: they are the timing values collected on the record's line (one per
  \<^verbatim>\<open>ms\<close> token, read from the token before it, absent for \<^verbatim>\<open>*\<close> and for a token that
  does not convert), padded with absent values up to three and cut down to three.
\<close>

theorem rtt_length_three:
  assumes "parse_traceroute s = Inr records" and "r \<in> set records"
  shows "length (rtt r) = 3 \<and>
         (\<exists>line\<in>set (drop 1 (splitlines (strip s))).
            rtt r = take 3 (timings (split line) @ replicate (3 - length (timings (split line))) None))"
proof -
  obtain line where l: "line \<in> set (drop 1 (splitlines (strip s)))"
      and p: "parse_line line = Inr (Some r)"
    using record_from_line [OF assms] by blast
  have "rtt r = take 3 (pad_rtts (timings (split line)))" using p by (rule parse_line_SomeD)
  then show ?thesis using l by (auto simp: length_take_pad_rtts pad_rtts_eq)
qed

text \<open>A line with four timing values: the fourth is cut off.\<close>

theorem rtt_length_three_witness:
  "parse_traceroute (''hops'' @ [CHR 0x0A] @ ''7 1.5 ms 2 ms * ms 9 ms'')
     = Inr [\<lparr>hop = 7, ip = None, hostname = None, rtt = [Some 1.5, Some 2, None]\<rparr>]
   \<and> length (rtt \<lparr>hop = 7, ip = None, hostname = None, rtt = [Some 1.5, Some 2, None]\<rparr>) = 3"
proof -
  have p: "parse_traceroute (''hops'' @ [CHR 0x0A] @ ''7 1.5 ms 2 ms * ms 9 ms'')
     = Inr [\<lparr>hop = 7, ip = None, hostname = None, rtt = [Some 1.5, Some 2, None]\<rparr>]"
    by code_simp
  have m: "\<lparr>hop = 7, ip = None, hostname = None, rtt = [Some 1.5, Some 2, None]\<rparr>
            \<in> set [\<lparr>hop = 7, ip = None, hostname = None, rtt = [Some 1.5, Some 2, None]\<rparr>]"
    by simp
  show ?thesis by (rule conjI [OF p conjunct1 [OF rtt_length_three [OF p m]]])
qed

subsection \<open>C4: no hostname without an address\<close>

text \<open>
  C4. In every record returned by \<open>parse_traceroute\<close>, whatever the input, an absent address
  comes with an absent hostname.
\<close>

theorem hostname_needs_address:
  assumes "parse_traceroute s = Inr records" and "r \<in> set records" and "ip r = None"
  shows "hostname r = None"
proof -
  obtain line where p: "parse_line line = Inr (Some r)"
    using record_from_line [OF assms(1,2)] by blast
  obtain a hn where f: "first_identity (re_match ipv4_pattern) (id_span (split line)) = (a, hn)"
    by (cases "first_identity (re_match ipv4_pattern) (id_span (split line))")
  have "a = None" using parse_line_SomeD(1) [OF p] f assms(3) by simp
  then have "hn = None" using f first_identity_no_address by blast
  then show ?thesis using parse_line_SomeD(2) [OF p] f by simp
qed

text \<open>A line with a name and no address: the name is not recorded.\<close>

theorem hostname_needs_address_witness:
  "parse_traceroute (''hops'' @ [CHR 0x0A] @ ''5 gateway.example * * *'')
     = Inr [\<lparr>hop = 5, ip = None, hostname = None, rtt = [None, None, None]\<rparr>]
   \<and> hostname \<lparr>hop = 5, ip = None, hostname = None, rtt = [None :: rat option, None, None]\<rparr> = None"
proof -
  have p: "parse_traceroute (''hops'' @ [CHR 0x0A] @ ''5 gateway.example * * *'')
     = Inr [\<lparr>hop = 5, ip = None, hostname = None, rtt = [None, None, None]\<rparr>]"
    by code_simp
  have m: "\<lparr>hop = 5, ip = None, hostname = None, rtt = [None, None, None]\<rparr>
            \<in> set [\<lparr>hop = 5, ip = None, hostname = None, rtt = [None :: rat option, None, None]\<rparr>]"
    by simp
  have n: "ip \<lparr>hop = 5, ip = None, hostname = None, rtt = [None :: rat option, None, None]\<rparr> = None"
    by simp
  show ?thesis by (rule conjI [OF p hostname_needs_address [OF p m n]])
qed

subsection \<open>C6: a hostname that repeats the address\<close>

text \<open>
  C6. No record returned by \<open>parse_traceroute\<close> has a hostname that, with its enclosing
  parentheses removed, equals the record's address; and the step of lines 123 to 125
  discards the hostname of any pair whose hostname, so stripped, equals the address.
\<close>

theorem self_reference_suppressed:
  assumes "parse_traceroute s = Inr records" and "r \<in> set records"
    and "ip r = Some a" and "hostname r = Some h"
  shows "strip_parens h \<noteq> a \<and>
         drop_self_reference (Some (strip_parens h'), Some h') = (Some (strip_parens h'), None)"
proof -
  obtain line where p: "parse_line line = Inr (Some r)"
    using record_from_line [OF assms(1,2)] by blast
  have f: "first_identity (re_match ipv4_pattern) (id_span (split line)) = (Some a, Some h)"
    using parse_line_SomeD(1,2) [OF p] assms(3,4) by (simp add: prod_eq_iff)
  have "re_match ipv4_pattern a" using f by (rule first_identity_shape)
  moreover have "\<not> re_match ipv4_pattern (strip_parens h)"
    using f by (rule first_identity_hostname_shape)
  ultimately have "strip_parens h \<noteq> a" by auto
  then show ?thesis by (simp add: drop_self_reference_def)
qed

text \<open>A hop with a name and a hop whose address is printed twice.\<close>

theorem self_reference_suppressed_witness:
  "parse_traceroute (''hops'' @ [CHR 0x0A] @ ''1 rtr.local (10.0.0.1) 0.3 ms'' @ [CHR 0x0A] @ ''2 10.1.1.1 (10.1.1.1) 3.6 ms'')
     = Inr [\<lparr>hop = 1, ip = Some ''10.0.0.1'', hostname = Some ''rtr.local'', rtt = [Some 0.3, None, None]\<rparr>,
            \<lparr>hop = 2, ip = Some ''10.1.1.1'', hostname = None, rtt = [Some 3.6, None, None]\<rparr>]
   \<and> strip_parens ''rtr.local'' \<noteq> ''10.0.0.1''
   \<and> drop_self_reference (Some (strip_parens ''(10.1.1.1)''), Some ''(10.1.1.1)'') = (Some (strip_parens ''(10.1.1.1)''), None)"
proof -
  have p: "parse_traceroute (''hops'' @ [CHR 0x0A] @ ''1 rtr.local (10.0.0.1) 0.3 ms'' @ [CHR 0x0A] @ ''2 10.1.1.1 (10.1.1.1) 3.6 ms'')
     = Inr [\<lparr>hop = 1, ip = Some ''10.0.0.1'', hostname = Some ''rtr.local'', rtt = [Some 0.3, None, None]\<rparr>,
            \<lparr>hop = 2, ip = Some ''10.1.1.1'', hostname = None, rtt = [Some 3.6, None, None]\<rparr>]"
    by code_simp
  have m: "\<lparr>hop = 1, ip = Some ''10.0.0.1'', hostname = Some ''rtr.local'', rtt = [Some 0.3, None, None]\<rparr>
     \<in> set [\<lparr>hop = 1, ip = Some ''10.0.0.1'', hostname = Some ''rtr.local'', rtt = [Some 0.3, None, None]\<rparr>,
            \<lparr>hop = 2, ip = Some ''10.1.1.1'', hostname = None, rtt = [Some (3.6 :: rat), None, None]\<rparr>]"
    by simp
  have i: "ip \<lparr>hop = 1, ip = Some ''10.0.0.1'', hostname = Some ''rtr.local'', rtt = [Some (0.3 :: rat), None, None]\<rparr> = Some ''10.0.0.1''"
    by simp
  have h: "hostname \<lparr>hop = 1, ip = Some ''10.0.0.1'', hostname = Some ''rtr.local'', rtt = [Some (0.3 :: rat), None, None]\<rparr> = Some ''rtr.local''"
    by simp
  show ?thesis by (rule conjI [OF p self_reference_suppressed [OF p m i h]])
qed

subsection \<open>C10: the hostname is stored as written, the address without parentheses\<close>

text \<open>
  C10. A recorded hostname is a token of the record's line, stored as it stands there
  (parentheses included), and the record's address is the token right after it with its
  enclosing parentheses removed; every recorded address is some token of its line, after
  the hop number, with the enclosing parentheses removed, and so has none left.
\<close>

theorem hostname_stored_verbatim:
  assumes "parse_traceroute s = Inr records" and "r \<in> set records"
  shows "(\<forall>h. hostname r = Some h \<longrightarrow>
            (\<exists>line\<in>set (drop 1 (splitlines (strip s))). \<exists>k.
               Suc (Suc k) < length (split line) \<and> split line ! Suc k = h \<and>
               ip r = Some (strip_parens (split line ! Suc (Suc k))))) \<and>
         (\<forall>a. ip r = Some a \<longrightarrow>
            strip_parens a = a \<and>
            (\<exists>line\<in>set (drop 1 (splitlines (strip s))). \<exists>t\<in>set (drop 1 (split line)). a = strip_parens t))"
proof -
  obtain line where l: "line \<in> set (drop 1 (splitlines (strip s)))"
      and p: "parse_line line = Inr (Some r)"
    using record_from_line [OF assms] by blast
  let ?ids = "id_span (split line)"
  have f: "first_identity (re_match ipv4_pattern) ?ids = (ip r, hostname r)"
    using parse_line_SomeD(1,2) [OF p] by (simp add: prod_eq_iff)
  have 1: "\<exists>k. Suc (Suc k) < length (split line) \<and> split line ! Suc k = h \<and>
               ip r = Some (strip_parens (split line ! Suc (Suc k)))"
    if "hostname r = Some h" for h
  proof -
    from f that obtain k where k: "Suc k < length ?ids" "?ids ! k = h"
        "ip r = Some (strip_parens (?ids ! Suc k))"
      using first_identity_positions [of "re_match ipv4_pattern" ?ids "ip r" h] by auto
    have "k < length ?ids" using k(1) by simp
    from id_span_nth [OF this] id_span_nth [OF k(1)] k show ?thesis by auto
  qed
  have 2: "strip_parens a = a \<and> (\<exists>t\<in>set (drop 1 (split line)). a = strip_parens t)"
    if "ip r = Some a" for a
  proof -
    from f that obtain t where "t \<in> set ?ids" and a: "a = strip_parens t"
      using first_identity_address_token [of "re_match ipv4_pattern" ?ids a "hostname r"] by auto
    then have "t \<in> set (drop 1 (split line))" using id_span_subset by blast
    then show ?thesis using a by (auto simp: strip_parens_def strip_where_idem)
  qed
  from 1 2 l show ?thesis by blast
qed

text \<open>A hostname written in parentheses keeps them.\<close>

theorem hostname_stored_verbatim_witness:
  "parse_traceroute (''hops'' @ [CHR 0x0A] @ ''1 (host) (10.0.0.1) 1 ms'')
     = Inr [\<lparr>hop = 1, ip = Some ''10.0.0.1'', hostname = Some ''(host)'', rtt = [Some 1, None, None]\<rparr>]
   \<and> (\<exists>line\<in>set (drop 1 (splitlines (strip (''hops'' @ [CHR 0x0A] @ ''1 (host) (10.0.0.1) 1 ms'')))). \<exists>k.
         Suc (Suc k) < length (split line) \<and> split line ! Suc k = ''(host)'' \<and>
         ip \<lparr>hop = 1, ip = Some ''10.0.0.1'', hostname = Some ''(host)'', rtt = [Some (1 :: rat), None, None]\<rparr>
           = Some (strip_parens (split line ! Suc (Suc k))))"
proof -
  have p: "parse_traceroute (''hops'' @ [CHR 0x0A] @ ''1 (host) (10.0.0.1) 1 ms'')
     = Inr [\<lparr>hop = 1, ip = Some ''10.0.0.1'', hostname = Some ''(host)'', rtt = [Some 1, None, None]\<rparr>]"
    by code_simp
  have m: "\<lparr>hop = 1, ip = Some ''10.0.0.1'', hostname = Some ''(host)'', rtt = [Some 1, None, None]\<rparr>
            \<in> set [\<lparr>hop = 1, ip = Some ''10.0.0.1'', hostname = Some ''(host)'', rtt = [Some (1 :: rat), None, None]\<rparr>]"
    by simp
  have h: "hostname \<lparr>hop = 1, ip = Some ''10.0.0.1'', hostname = Some ''(host)'', rtt = [Some (1 :: rat), None, None]\<rparr>
             = Some ''(host)''"
    by simp
  show ?thesis
    by (rule conjI [OF p hostname_stored_verbatim [OF p m, THEN conjunct1, THEN spec, THEN mp, OF h]])
qed

subsection \<open>C1: no exception leaves the parser\<close>

text \<open>
  C1. For every input string \<open>parse_traceroute\<close> returns a list of records and raises
  nothing; a line whose first token \<^verbatim>\<open>int\<close> rejects contributes no record, and a line whose
  first token converts contributes a record with that hop number, whatever else is on it.
\<close>

theorem parse_never_raises:
  "(\<exists>records. parse_traceroute s = Inr records) \<and>
   (split line = t # ts \<and> py_int t = Inl e \<longrightarrow> parse_line line = Inr None) \<and>
   (split line = t # ts \<and> py_int t = Inr h \<longrightarrow>
      (\<exists>r. parse_line line = Inr (Some r) \<and> hop r = h))"
proof (intro conjI impI)
  show "\<exists>records. parse_traceroute s = Inr records" by (simp add: parse_traceroute_eq)
next
  assume "split line = t # ts \<and> py_int t = Inl e"
  then show "parse_line line = Inr None" using parse_line_not_hop by blast
next
  assume a: "split line = t # ts \<and> py_int t = Inr h"
  then have "strip line \<noteq> []" using split_blank [of line] by auto
  with a show "\<exists>r. parse_line line = Inr (Some r) \<and> hop r = h"
    using parse_line_hop [of line t ts h] by simp
qed

text \<open>The header line of a trace is skipped as a line that is not a hop.\<close>

theorem parse_never_raises_witness:
  "parse_line ''traceroute to example.com (93.184.216.34), 30 hops max'' = Inr None"
proof -
  have "split ''traceroute to example.com (93.184.216.34), 30 hops max''
          = ''traceroute'' # [''to'', ''example.com'', ''(93.184.216.34),'', ''30'', ''hops'', ''max'']
        \<and> py_int ''traceroute'' = Inl ValueError"
    by code_simp
  with parse_never_raises [THEN conjunct2, THEN conjunct1] show ?thesis by (rule mp)
qed

subsection \<open>C8: empty input\<close>

text \<open>
  C8. An input that is empty or consists of whitespace only yields the empty list and no
  error; no input makes the parser fail.
\<close>

theorem empty_input_empty_output:
  "((\<forall>c\<in>set s. isspace c) \<longrightarrow> parse_traceroute s = Inr []) \<and>
   (\<exists>records. parse_traceroute s' = Inr records)"
proof (intro conjI impI)
  assume "\<forall>c\<in>set s. isspace c"
  then have "strip s = []" by (simp add: strip_def strip_where_empty_iff)
  then show "parse_traceroute s = Inr []"
    by (simp add: parse_traceroute_def splitlines_def)
next
  show "\<exists>records. parse_traceroute s' = Inr records" by (simp add: parse_traceroute_eq)
qed

text \<open>The empty text, and a text of a space, a line feed and a tab.\<close>

theorem empty_input_empty_output_witness:
  "parse_traceroute [] = Inr [] \<and> parse_traceroute ('' '' @ [CHR 0x0A, CHR 0x09]) = Inr []"
proof -
  have 1: "\<forall>c\<in>set []. isspace c" by simp
  have 2: "\<forall>c\<in>set ('' '' @ [CHR 0x0A, CHR 0x09]). isspace c" by (simp add: isspace_def)
  show ?thesis
    by (rule conjI [OF empty_input_empty_output [THEN conjunct1, THEN mp, OF 1]
                       empty_input_empty_output [THEN conjunct1, THEN mp, OF 2]])
qed

subsection \<open>C5: the order of the records\<close>

text \<open>
  C5, as stated: the hop numbers of the returned records are non-decreasing for every
  input. The parser neither sorts nor checks the numbers, so a text whose hop lines are out
  of order gives records out of order.
\<close>

theorem hop_order_counterexample:
  "parse_traceroute (''hops'' @ [CHR 0x0A] @ ''2 10.0.0.2 1.0 ms'' @ [CHR 0x0A] @ ''1 10.0.0.1 1.0 ms'')
     = Inr [\<lparr>hop = 2, ip = Some ''10.0.0.2'', hostname = None, rtt = [Some 1, None, None]\<rparr>,
            \<lparr>hop = 1, ip = Some ''10.0.0.1'', hostname = None, rtt = [Some 1, None, None]\<rparr>]
   \<and> \<not> sorted (map hop
            [\<lparr>hop = 2, ip = Some ''10.0.0.2'', hostname = None, rtt = [Some (1 :: rat), None, None]\<rparr>,
             \<lparr>hop = 1, ip = Some ''10.0.0.1'', hostname = None, rtt = [Some 1, None, None]\<rparr>])"
proof
  show "parse_traceroute (''hops'' @ [CHR 0x0A] @ ''2 10.0.0.2 1.0 ms'' @ [CHR 0x0A] @ ''1 10.0.0.1 1.0 ms'')
     = Inr [\<lparr>hop = 2, ip = Some ''10.0.0.2'', hostname = None, rtt = [Some 1, None, None]\<rparr>,
            \<lparr>hop = 1, ip = Some ''10.0.0.1'', hostname = None, rtt = [Some 1, None, None]\<rparr>]"
    by code_simp
  show "\<not> sorted (map hop
            [\<lparr>hop = 2, ip = Some ''10.0.0.2'', hostname = None, rtt = [Some (1 :: rat), None, None]\<rparr>,
             \<lparr>hop = 1, ip = Some ''10.0.0.1'', hostname = None, rtt = [Some 1, None, None]\<rparr>])"
    by simp
qed

text \<open>
  C5, amended. For every input the parser returns one record for each line after the first
  whose first token converts to an integer, in the order of these lines and with their
  numbers; so the hop numbers of the result are non-decreasing whenever those of the hop
  lines of the input are.
\<close>

theorem records_follow_lines:
  "\<exists>records. parse_traceroute s = Inr records \<and>
     map hop records = List.map_filter line_hop (drop 1 (splitlines (strip s))) \<and>
     (sorted (List.map_filter line_hop (drop 1 (splitlines (strip s)))) \<longrightarrow> sorted (map hop records))"
  by (simp add: parse_traceroute_eq map_map_filter line_record_hop)

text \<open>Three lines after the header, the second of which is no hop line.\<close>

theorem records_follow_lines_witness:
  "\<exists>records. parse_traceroute (''hops'' @ [CHR 0x0A] @ ''2 10.0.0.2 1.0 ms'' @ [CHR 0x0A] @ ''no hop''
                 @ [CHR 0x0A] @ ''1 10.0.0.1 1.0 ms'') = Inr records \<and>
     map hop records = [2, 1]"
proof -
  have "List.map_filter line_hop (drop 1 (splitlines (strip (''hops'' @ [CHR 0x0A] @ ''2 10.0.0.2 1.0 ms'' @ [CHR 0x0A] @ ''no hop''
                 @ [CHR 0x0A] @ ''1 10.0.0.1 1.0 ms'')))) = [2, 1]"
    by code_simp
  with records_follow_lines [of "''hops'' @ [CHR 0x0A] @ ''2 10.0.0.2 1.0 ms'' @ [CHR 0x0A] @ ''no hop''
                 @ [CHR 0x0A] @ ''1 10.0.0.1 1.0 ms''"]
  show ?thesis by auto
qed

subsection \<open>C7: scenario A\<close>

text \<open>
  C7. For every header line (a text with a character that is not whitespace and with no
  line boundary in it), the input made of the header, a line feed and the line
  \<^verbatim>\<open>1  rtr.local (10.0.0.1)  0.334 ms  0.311 ms  0.302 ms\<close> is parsed to exactly one record:
  hop 1, address \<^verbatim>\<open>10.0.0.1\<close>, hostname \<^verbatim>\<open>rtr.local\<close> and the round-trip times 0.334, 0.311
  and 0.302 (the values \<^verbatim>\<open>float\<close> gives for these decimals).
\<close>

theorem scenario_A:
  assumes "\<exists>c\<in>set header. \<not> isspace c" and "\<forall>c\<in>set header. \<not> is_linebreak c"
  shows "parse_traceroute
           (header @ [CHR 0x0A] @ ''1  rtr.local (10.0.0.1)  0.334 ms  0.311 ms  0.302 ms'')
         = Inr [\<lparr>hop = 1, ip = Some ''10.0.0.1'', hostname = Some ''rtr.local'',
                 rtt = [Some 0.334, Some 0.311, Some 0.302]\<rparr>]"
proof -
  have l: "lines_loop (splitlines_from [] ''1  rtr.local (10.0.0.1)  0.334 ms  0.311 ms  0.302 ms'') []
         = Inr [\<lparr>hop = 1, ip = Some ''10.0.0.1'', hostname = Some ''rtr.local'',
                 rtt = [Some 0.334, Some 0.311, Some 0.302]\<rparr>]"
    by code_simp
  have n: "''1  rtr.local (10.0.0.1)  0.334 ms  0.311 ms  0.302 ms'' \<noteq> []" by simp
  have s: "\<not> isspace (last ''1  rtr.local (10.0.0.1)  0.334 ms  0.311 ms  0.302 ms'')"
    by (simp add: isspace_def)
  show ?thesis using parse_after_header [OF assms n s] l by simp
qed

text \<open>The header that \<^verbatim>\<open>traceroute\<close> prints.\<close>

theorem scenario_A_witness:
  "parse_traceroute
     (''traceroute to example.com (93.184.216.34), 30 hops max, 60 byte packets'' @ [CHR 0x0A]
        @ ''1  rtr.local (10.0.0.1)  0.334 ms  0.311 ms  0.302 ms'')
   = Inr [\<lparr>hop = 1, ip = Some ''10.0.0.1'', hostname = Some ''rtr.local'',
           rtt = [Some 0.334, Some 0.311, Some 0.302]\<rparr>]"
proof -
  have 1: "\<exists>c\<in>set ''traceroute to example.com (93.184.216.34), 30 hops max, 60 byte packets''. \<not> isspace c"
    by (simp add: isspace_def)
  have 2: "\<forall>c\<in>set ''traceroute to example.com (93.184.216.34), 30 hops max, 60 byte packets''. \<not> is_linebreak c"
    by (simp add: is_linebreak_def)
  show ?thesis by (rule scenario_A [OF 1 2])
qed

subsection \<open>C2: where the address and the hostname are looked for\<close>

text \<open>
  C2, as stated: the address is the first token of exact IPv4 shape among the tokens
  strictly between the hop number and the first \<^verbatim>\<open>ms\<close> token, and the hostname the token
  before it. Three lines show the parser doing otherwise. On the first, the token just
  before the first \<^verbatim>\<open>ms\<close> is an address and the parser does not look at it. On the second
  the first \<^verbatim>\<open>ms\<close> is the third token, and the parser scans the whole rest of the line,
  past that \<^verbatim>\<open>ms\<close>. On the third a token that only begins with an IPv4 shape is taken as
  the address.
\<close>

theorem identity_span_counterexample:
  "parse_line ''1 host 10.0.0.1 ms''
     = Inr (Some \<lparr>hop = 1, ip = None, hostname = None, rtt = [None, None, None]\<rparr>)
   \<and> claimed_identity (split ''1 host 10.0.0.1 ms'') = (Some ''10.0.0.1'', Some ''host'')
   \<and> parse_line ''4 5.5 ms 10.0.0.1''
     = Inr (Some \<lparr>hop = 4, ip = Some ''10.0.0.1'', hostname = Some ''ms'', rtt = [Some 5.5, None, None]\<rparr>)
   \<and> claimed_identity (split ''4 5.5 ms 10.0.0.1'') = (None, None)
   \<and> parse_line ''1 1.2.3.4.5''
     = Inr (Some \<lparr>hop = 1, ip = Some ''1.2.3.4.5'', hostname = None, rtt = [None, None, None]\<rparr>)
   \<and> \<not> ipv4_shaped ''1.2.3.4.5''"
  by code_simp

text \<open>
  C2, amended. For every hop line, the address and the hostname are found by scanning
  \<open>id_span\<close> of its tokens only: with \<open>k\<close> the position of the first \<^verbatim>\<open>ms\<close> token, the
  tokens after the hop number and before the token that precedes that \<^verbatim>\<open>ms\<close> when
  \<open>k > 2\<close>, and all the tokens after the hop number when there is no \<^verbatim>\<open>ms\<close> token or
  \<open>k \<le> 2\<close>. Two hop lines with the same span have the same address and hostname; a recorded
  address is a token of the span with its enclosing parentheses removed; a recorded
  hostname is the token of the span just before the token of the address.

  If moreover the first token of the span that begins with an IPv4 shape (enclosing
  parentheses removed), when there is one, is exactly of that shape, then the first token
  of the span that has the shape gives the address, the token just before it in the span,
  if there is one, gives the hostname, nothing after that first address is used, both are
  absent when no token has the shape, and the address is of exact IPv4 shape.
\<close>

theorem identity_from_id_span:
  assumes "parse_line line = Inr (Some r)"
  shows "(\<forall>line' r'. parse_line line' = Inr (Some r') \<and> id_span (split line') = id_span (split line)
            \<longrightarrow> ip r' = ip r \<and> hostname r' = hostname r) \<and>
         (\<forall>a. ip r = Some a \<longrightarrow> (\<exists>t\<in>set (id_span (split line)). a = strip_parens t)) \<and>
         (\<forall>h. hostname r = Some h \<longrightarrow>
            (\<exists>k. Suc k < length (id_span (split line)) \<and> id_span (split line) ! k = h \<and>
                 ip r = Some (strip_parens (id_span (split line) ! Suc k)))) \<and>
         ((\<forall>t. find (\<lambda>t. re_match ipv4_pattern (strip_parens t)) (id_span (split line)) = Some t
                \<longrightarrow> ipv4_shaped (strip_parens t))
            \<longrightarrow> (ip r, hostname r) = first_identity ipv4_shaped (id_span (split line)) \<and>
                (\<forall>a. ip r = Some a \<longrightarrow> ipv4_shaped a))"
proof -
  let ?ids = "id_span (split line)"
  have f: "first_identity (re_match ipv4_pattern) ?ids = (ip r, hostname r)"
    using parse_line_SomeD(1,2) [OF assms] by (simp add: prod_eq_iff)
  have 1: "ip r' = ip r \<and> hostname r' = hostname r"
    if "parse_line line' = Inr (Some r') \<and> id_span (split line') = ?ids" for line' r'
    using that parse_line_SomeD(1,2) [of line' r'] parse_line_SomeD(1,2) [OF assms] by simp
  have 2: "\<exists>t\<in>set ?ids. a = strip_parens t" if "ip r = Some a" for a
    using f that first_identity_address_token [of "re_match ipv4_pattern" ?ids a "hostname r"] by simp
  have 3: "\<exists>k. Suc k < length ?ids \<and> ?ids ! k = h \<and> ip r = Some (strip_parens (?ids ! Suc k))"
    if "hostname r = Some h" for h
    using f that first_identity_positions [of "re_match ipv4_pattern" ?ids "ip r" h] by simp
  have 4: "(ip r, hostname r) = first_identity ipv4_shaped ?ids \<and> (\<forall>a. ip r = Some a \<longrightarrow> ipv4_shaped a)"
    if p: "\<forall>t. find (\<lambda>t. re_match ipv4_pattern (strip_parens t)) ?ids = Some t
                \<longrightarrow> ipv4_shaped (strip_parens t)"
  proof -
    have q: "\<forall>s. ipv4_shaped s \<longrightarrow> re_match ipv4_pattern s"
      using ipv4_shaped_match by blast
    have "first_identity ipv4_shaped ?ids = first_identity (re_match ipv4_pattern) ?ids"
      by (rule first_identity_narrow [OF p q])
    with f have e: "(ip r, hostname r) = first_identity ipv4_shaped ?ids" by simp
    then have "ipv4_shaped a" if "ip r = Some a" for a
      using that first_identity_shape [of ipv4_shaped ?ids a "hostname r"] by simp
    then have "\<forall>a. ip r = Some a \<longrightarrow> ipv4_shaped a" by blast
    with e show ?thesis by (rule conjI)
  qed
  show ?thesis
  proof (intro conjI allI impI)
    fix line' r'
    assume a: "parse_line line' = Inr (Some r') \<and> id_span (split line') = ?ids"
    from 1 [OF a] show "ip r' = ip r" and "hostname r' = hostname r" by simp_all
  next
    fix a assume "ip r = Some a"
    then show "\<exists>t\<in>set ?ids. a = strip_parens t" by (rule 2)
  next
    fix h assume "hostname r = Some h"
    then show "\<exists>k. Suc k < length ?ids \<and> ?ids ! k = h \<and> ip r = Some (strip_parens (?ids ! Suc k))"
      by (rule 3)
  next
    assume p: "\<forall>t. find (\<lambda>t. re_match ipv4_pattern (strip_parens t)) ?ids = Some t
                \<longrightarrow> ipv4_shaped (strip_parens t)"
    from 4 [OF p] show "(ip r, hostname r) = first_identity ipv4_shaped ?ids" by (rule conjunct1)
  next
    fix a
    assume p: "\<forall>t. find (\<lambda>t. re_match ipv4_pattern (strip_parens t)) ?ids = Some t
                \<longrightarrow> ipv4_shaped (strip_parens t)"
      and i: "ip r = Some a"
    from 4 [OF p] i show "ipv4_shaped a" by blast
  qed
qed

text \<open>A line whose span holds, after the address, a token that only begins with an IPv4
  shape, and a second line with the same span.\<close>

theorem identity_from_id_span_witness:
  "parse_line ''1 rtr (10.0.0.1) 10.0.0.2x 5 ms''
     = Inr (Some \<lparr>hop = 1, ip = Some ''10.0.0.1'', hostname = Some ''rtr'',
                  rtt = [Some 5, None, None]\<rparr>)
   \<and> id_span (split ''1 rtr (10.0.0.1) 10.0.0.2x 5 ms'') = [''rtr'', ''(10.0.0.1)'', ''10.0.0.2x'']
   \<and> re_match ipv4_pattern (strip_parens ''10.0.0.2x'')
   \<and> \<not> ipv4_shaped (strip_parens ''10.0.0.2x'')
   \<and> (ip \<lparr>hop = 1, ip = Some ''10.0.0.1'', hostname = Some ''rtr'',
            rtt = [Some (5 :: rat), None, None]\<rparr>,
       hostname \<lparr>hop = 1, ip = Some ''10.0.0.1'', hostname = Some ''rtr'',
            rtt = [Some (5 :: rat), None, None]\<rparr>)
       = first_identity ipv4_shaped (id_span (split ''1 rtr (10.0.0.1) 10.0.0.2x 5 ms''))
   \<and> (ip \<lparr>hop = 1, ip = Some ''10.0.0.1'', hostname = Some ''rtr'',
            rtt = [Some (7 :: rat), Some 8, None]\<rparr>
         = ip \<lparr>hop = 1, ip = Some ''10.0.0.1'', hostname = Some ''rtr'',
            rtt = [Some (5 :: rat), None, None]\<rparr>
       \<and> hostname \<lparr>hop = 1, ip = Some ''10.0.0.1'', hostname = Some ''rtr'',
            rtt = [Some (7 :: rat), Some 8, None]\<rparr>
         = hostname \<lparr>hop = 1, ip = Some ''10.0.0.1'', hostname = Some ''rtr'',
            rtt = [Some (5 :: rat), None, None]\<rparr>)"
proof -
  have p: "parse_line ''1 rtr (10.0.0.1) 10.0.0.2x 5 ms''
     = Inr (Some \<lparr>hop = 1, ip = Some ''10.0.0.1'', hostname = Some ''rtr'',
                  rtt = [Some 5, None, None]\<rparr>)"
    by code_simp
  have i: "id_span (split ''1 rtr (10.0.0.1) 10.0.0.2x 5 ms'') = [''rtr'', ''(10.0.0.1)'', ''10.0.0.2x'']"
    by code_simp
  have m: "re_match ipv4_pattern (strip_parens ''10.0.0.2x'')" by code_simp
  have n: "\<not> ipv4_shaped (strip_parens ''10.0.0.2x'')" by code_simp
  have f: "find (\<lambda>t. re_match ipv4_pattern (strip_parens t))
             (id_span (split ''1 rtr (10.0.0.1) 10.0.0.2x 5 ms'')) = Some ''(10.0.0.1)''"
    by code_simp
  have e: "ipv4_shaped (strip_parens ''(10.0.0.1)'')" by code_simp
  have h: "\<forall>t. find (\<lambda>t. re_match ipv4_pattern (strip_parens t))
                 (id_span (split ''1 rtr (10.0.0.1) 10.0.0.2x 5 ms'')) = Some t
              \<longrightarrow> ipv4_shaped (strip_parens t)"
    using e by (simp only: f option.inject) blast
  have p': "parse_line ''1 rtr (10.0.0.1) 10.0.0.2x 7 ms 8 ms''
     = Inr (Some \<lparr>hop = 1, ip = Some ''10.0.0.1'', hostname = Some ''rtr'',
                  rtt = [Some 7, Some 8, None]\<rparr>)"
    by code_simp
  have i': "id_span (split ''1 rtr (10.0.0.1) 10.0.0.2x 7 ms 8 ms'')
              = id_span (split ''1 rtr (10.0.0.1) 10.0.0.2x 5 ms'')"
    by code_simp
  note t = identity_from_id_span [OF p]
  have c4: "(ip \<lparr>hop = 1, ip = Some ''10.0.0.1'', hostname = Some ''rtr'',
            rtt = [Some (5 :: rat), None, None]\<rparr>,
       hostname \<lparr>hop = 1, ip = Some ''10.0.0.1'', hostname = Some ''rtr'',
            rtt = [Some (5 :: rat), None, None]\<rparr>)
       = first_identity ipv4_shaped (id_span (split ''1 rtr (10.0.0.1) 10.0.0.2x 5 ms''))"
    by (rule t [THEN conjunct2, THEN conjunct2, THEN conjunct2, THEN mp, OF h, THEN conjunct1])
  have c1: "ip \<lparr>hop = 1, ip = Some ''10.0.0.1'', hostname = Some ''rtr'',
            rtt = [Some (7 :: rat), Some 8, None]\<rparr>
         = ip \<lparr>hop = 1, ip = Some ''10.0.0.1'', hostname = Some ''rtr'',
            rtt = [Some (5 :: rat), None, None]\<rparr>
       \<and> hostname \<lparr>hop = 1, ip = Some ''10.0.0.1'', hostname = Some ''rtr'',
            rtt = [Some (7 :: rat), Some 8, None]\<rparr>
         = hostname \<lparr>hop = 1, ip = Some ''10.0.0.1'', hostname = Some ''rtr'',
            rtt = [Some (5 :: rat), None, None]\<rparr>"
    by (rule t [THEN conjunct1, THEN spec, THEN spec, THEN mp, OF conjI [OF p' i']])
  show ?thesis by (rule conjI [OF p conjI [OF i conjI [OF m conjI [OF n conjI [OF c4 c1]]]]])
qed

subsection \<open>C9: failures of the tracer's invocation\<close>

text \<open>
  C9 says that \<open>execute_traceroute\<close> returns the empty string on any failure of the
  invocation. The handler catches \<^verbatim>\<open>CalledProcessError\<close> only: when \<^verbatim>\<open>subprocess.run\<close> raises
  \<^verbatim>\<open>FileNotFoundError\<close> (no \<^verbatim>\<open>traceroute\<close> program) or \<^verbatim>\<open>ValueError\<close> (a NUL character in the
  destination), the exception reaches the caller; and the output of a run that completes
  is returned as bytes.
\<close>

theorem execute_traceroute_propagates:
  "execute_traceroute (\<lambda>argv. Inl FileNotFoundError) ''example.com'' = Inl FileNotFoundError
   \<and> execute_traceroute (\<lambda>argv. Inl ValueError) [CHR 0x00] = Inl ValueError
   \<and> execute_traceroute (\<lambda>argv. Inr \<lparr>returncode = 0, stdout = ''traceroute to example.com'', stderr = []\<rparr>)
        ''example.com'' = Inr (Bytes ''traceroute to example.com'')"
  by (simp add: execute_traceroute_def)

end
